theory Spec2Isabelle
  imports Complex_Main "HOL-Library.Multiset"
begin

section \<open>Text primitives of the result files\<close>

text \<open>
  The three scripts under \<^verbatim>\<open>Molecular_Docking\<close> read docking result files as text.
  A file is the list of its lines (each line keeps its final newline, as
  \<^verbatim>\<open>for line in file\<close> and \<^verbatim>\<open>readlines()\<close> give them), a directory is the list
  of its entries in the order \<^verbatim>\<open>os.listdir\<close> returns them, each entry a name
  with the lines of the file. Characters are code points below 256.
\<close>

type_synonym line = string
type_synonym entry = "string \<times> line list"

datatype error = IndexError | ValueError | TypeError | ChildProcessError | OSError

text \<open>\<^verbatim>\<open>s.startswith(p)\<close>, \<^verbatim>\<open>s.endswith(p)\<close> and \<^verbatim>\<open>p in s\<close> on strings.\<close>

definition startswith :: "string \<Rightarrow> string \<Rightarrow> bool" where
  "startswith s p = (take (length p) s = p)"

definition endswith :: "string \<Rightarrow> string \<Rightarrow> bool" where
  "endswith s p = (length p \<le> length s \<and> drop (length s - length p) s = p)"

fun contains :: "string \<Rightarrow> string \<Rightarrow> bool" where
  "contains [] p = (p = [])"
| "contains (c # cs) p = (startswith (c # cs) p \<or> contains cs p)"

text \<open>
  \<^verbatim>\<open>s.split()\<close> with no argument: the maximal runs of characters that are not
  white space. White space is what \<^verbatim>\<open>str.isspace\<close> accepts below code point 256:
  tab to carriage return, the four separators 28 to 31, the blank, NEL (133)
  and the no-break space (160).
\<close>

definition isspace :: "char \<Rightarrow> bool" where
  "isspace c = (let n = (of_char c :: nat) in
     (9 \<le> n \<and> n \<le> 13) \<or> (28 \<le> n \<and> n \<le> 32) \<or> n = 133 \<or> n = 160)"

fun split_from :: "string \<Rightarrow> string \<Rightarrow> string list" where
  "split_from w [] = (if w = [] then [] else [w])"
| "split_from w (c # cs) =
     (if isspace c then (if w = [] then split_from [] cs else w # split_from [] cs)
      else split_from (w @ [c]) cs)"

definition split :: "string \<Rightarrow> string list" where
  "split s = split_from [] s"

section \<open>Floats and \<^verbatim>\<open>list.sort\<close>\<close>

text \<open>
  A score is a Python float: a number, one of the two infinities, or \<^verbatim>\<open>nan\<close>.
  \<open>Fin r\<close> is the float whose value is the real number \<open>r\<close>. \<open>float_lt\<close> is
  \<^verbatim>\<open><\<close> on floats and \<open>float_le\<close> is \<^verbatim>\<open><=\<close>: every comparison with \<^verbatim>\<open>nan\<close> is
  false.
\<close>

datatype pyfloat = Fin real | PosInf | NegInf | NaN

fun float_lt :: "pyfloat \<Rightarrow> pyfloat \<Rightarrow> bool" where
  "float_lt (Fin a) (Fin b) = (a < b)"
| "float_lt (Fin a) PosInf = True"
| "float_lt NegInf (Fin b) = True"
| "float_lt NegInf PosInf = True"
| "float_lt _ _ = False"

definition float_le :: "pyfloat \<Rightarrow> pyfloat \<Rightarrow> bool" where
  "float_le a b = (float_lt a b \<or> (a = b \<and> a \<noteq> NaN))"

text \<open>
  \<^verbatim>\<open>float(line.split()[3])\<close>: the fourth field of the line, read as a float.
  Fewer than four fields raise IndexError; a field that \<^verbatim>\<open>float\<close> rejects raises
  ValueError. Python's \<^verbatim>\<open>float\<close> is not code of the repository: it is the
  parameter \<open>fl\<close>, which gives the float read, \<^verbatim>\<open>nan\<close> and the infinities among
  them, or \<open>None\<close> where \<^verbatim>\<open>float\<close> raises.
\<close>

type_synonym reader = "string \<Rightarrow> pyfloat option"

definition marker :: string where
  "marker = ''REMARK VINA RESULT:''"

definition score_field :: "reader \<Rightarrow> line \<Rightarrow> error + pyfloat" where
  "score_field fl l =
     (let ws = split l in
      if length ws \<le> 3 then Inl IndexError
      else case fl (ws ! 3) of None \<Rightarrow> Inl ValueError | Some v \<Rightarrow> Inr v)"

text \<open>
  A reader to run the scenarios with. It reads \<^verbatim>\<open>nan\<close>, \<^verbatim>\<open>inf\<close> and
  \<^verbatim>\<open>infinity\<close> in any case of letters and with a sign, as \<^verbatim>\<open>float\<close> does, and
  plain decimal literals (an optional sign, digits, an optional point and
  digits), each as the decimal number it writes. It is not \<^verbatim>\<open>float\<close>: on a
  literal \<^verbatim>\<open>float\<close> gives the double nearest to that number, and \<^verbatim>\<open>float\<close> reads
  more tokens (an exponent, underscores between digits). The statements made
  of every reader do not depend on it.
\<close>

definition isdigit :: "char \<Rightarrow> bool" where
  "isdigit c = (48 \<le> (of_char c :: nat) \<and> (of_char c :: nat) \<le> 57)"

fun digits_value :: "nat \<Rightarrow> string \<Rightarrow> nat" where
  "digits_value a [] = a"
| "digits_value a (c # cs) = digits_value (10 * a + (of_char c - 48)) cs"

definition unsigned_decimal :: "string \<Rightarrow> real option" where
  "unsigned_decimal s =
     (let ip = takeWhile isdigit s; rest = dropWhile isdigit s in
      case rest of
        [] \<Rightarrow> (if ip = [] then None else Some (real (digits_value 0 ip)))
      | c # fp \<Rightarrow>
          (if c = CHR ''.'' \<and> list_all isdigit fp \<and> (ip \<noteq> [] \<or> fp \<noteq> [])
           then Some (real (digits_value 0 ip) + real (digits_value 0 fp) / 10 ^ length fp)
           else None))"

definition lower :: "char \<Rightarrow> char" where
  "lower c =
     (case map_of (zip ''ABCDEFGHIJKLMNOPQRSTUVWXYZ'' ''abcdefghijklmnopqrstuvwxyz'') c of
        None \<Rightarrow> c
      | Some d \<Rightarrow> d)"

definition decimal :: reader where
  "decimal s =
     (let neg = (take 1 s = ''-'');
          body = (if take 1 s = ''-'' \<or> take 1 s = ''+'' then drop 1 s else s);
          word = map lower body
      in if word = ''nan'' then Some NaN
         else if word = ''inf'' \<or> word = ''infinity'' then Some (if neg then NegInf else PosInf)
         else map_option (\<lambda>v. Fin (if neg then - v else v)) (unsigned_decimal body))"

text \<open>
  \<^verbatim>\<open>results.sort(key=...)\<close> with float keys. The sort compares keys with \<^verbatim>\<open><\<close>
  only and moves each record with its key. What every version of the
  interpreter does:
  \<^item> a list in which no key is smaller than the key before it is found to be
    one run and is left as it is; a \<^verbatim>\<open>nan\<close> key is never smaller and never has a
    smaller successor, so this is also the case of \<open>-5.0, nan, -7.1\<close>;
  \<^item> a list without a \<^verbatim>\<open>nan\<close> key is sorted ascending, records with equal keys
    staying in their order (the sort is stable): \<open>stable_sort\<close>, an insertion
    sort, gives that list.

  On any other list, one with a \<^verbatim>\<open>nan\<close> key that is not one run, the order
  depends on the merge strategy of the interpreter's version. It is the
  parameter \<open>srt\<close>: from the keys it gives the positions of the input in the
  order of the output. \<open>as_given\<close> is the one that leaves the list as it is.
\<close>

fun single_run :: "pyfloat list \<Rightarrow> bool" where
  "single_run (a # b # ks) = (\<not> float_lt b a \<and> single_run (b # ks))"
| "single_run ks = True"

fun insert_by :: "('a \<Rightarrow> pyfloat) \<Rightarrow> 'a \<Rightarrow> 'a list \<Rightarrow> 'a list" where
  "insert_by key x [] = [x]"
| "insert_by key x (y # ys) =
     (if float_lt (key y) (key x) then y # insert_by key x ys else x # y # ys)"

definition stable_sort :: "('a \<Rightarrow> pyfloat) \<Rightarrow> 'a list \<Rightarrow> 'a list" where
  "stable_sort key xs = foldr (insert_by key) xs []"

type_synonym sorter = "pyfloat list \<Rightarrow> nat list"

definition list_sort :: "sorter \<Rightarrow> ('a \<Rightarrow> pyfloat) \<Rightarrow> 'a list \<Rightarrow> 'a list" where
  "list_sort srt key xs =
     (let ks = map key xs in
      if single_run ks then xs
      else if NaN \<notin> set ks then stable_sort key xs
      else map (\<lambda>i. xs ! i) (filter (\<lambda>i. i < length xs) (srt ks)))"

definition as_given :: sorter where
  "as_given ks = [0..<length ks]"

text \<open>A list is ascending by its keys when \<^verbatim>\<open><=\<close> holds from each record to every later one.\<close>

abbreviation ascending :: "('a \<Rightarrow> pyfloat) \<Rightarrow> 'a list \<Rightarrow> bool" where
  "ascending key xs \<equiv> sorted_wrt (\<lambda>a b. float_le (key a) (key b)) xs"

section \<open>Ranking in \<^verbatim>\<open>Docking1.docking_process\<close> (lines 68 to 82)\<close>

text \<open>
  The inner loop over the lines of one result file: the first line that starts
  with the marker gives the binding affinity and ends the loop; a file with no
  such line gives nothing.
\<close>

fun first_affinity :: "reader \<Rightarrow> line list \<Rightarrow> error + pyfloat option" where
  "first_affinity fl [] = Inr None"
| "first_affinity fl (l # ls) =
     (if startswith l marker
      then (case score_field fl l of Inl e \<Rightarrow> Inl e | Inr v \<Rightarrow> Inr (Some v))
      else first_affinity fl ls)"

text \<open>
  The outer loop over the result directory. \<open>results\<close> is the list the source
  appends to; an entry whose name does not end in \<^verbatim>\<open>.pdbqt\<close> is passed over, and
  so is, without a message, a file with no marker line.
\<close>

fun collect_results ::
  "reader \<Rightarrow> (pyfloat \<times> string) list \<Rightarrow> entry list
     \<Rightarrow> error + (pyfloat \<times> string) list" where
  "collect_results fl results [] = Inr results"
| "collect_results fl results ((pdbqt_file, ls) # rest) =
     (if endswith pdbqt_file ''.pdbqt''
      then (case first_affinity fl ls of
              Inl e \<Rightarrow> Inl e
            | Inr None \<Rightarrow> collect_results fl results rest
            | Inr (Some binding_affinity) \<Rightarrow>
                collect_results fl (results @ [(binding_affinity, pdbqt_file)]) rest)
      else collect_results fl results rest)"

text \<open>
  \<^verbatim>\<open>results.sort(key=lambda x: x[0])\<close> on a list of pairs whose first component
  is a float, then the slice \<^verbatim>\<open>results[:K]\<close>. The source writes the bound as the
  literal 500; it is the parameter \<open>K\<close> here, and \<open>docking_process\<close> is the
  source's instance. The result is the list whose files the source then
  copies, in this order; the copying itself (line 82) is not part of the model.
\<close>

definition top_ligands ::
  "nat \<Rightarrow> reader \<Rightarrow> sorter \<Rightarrow> entry list \<Rightarrow> error + (pyfloat \<times> string) list" where
  "top_ligands K fl srt dir =
     (case collect_results fl [] dir of
        Inl e \<Rightarrow> Inl e
      | Inr results \<Rightarrow> Inr (take K (list_sort srt fst results)))"

definition docking_process ::
  "reader \<Rightarrow> sorter \<Rightarrow> entry list \<Rightarrow> error + (pyfloat \<times> string) list" where
  "docking_process fl srt dir = top_ligands 500 fl srt dir"

section \<open>Ranking in \<^verbatim>\<open>MOL2_top_poses.analyze_results\<close> (lines 46 to 55)\<close>

text \<open>
  \<^verbatim>\<open>get_best_score_and_pose\<close>: the score is read from the first line that
  contains the marker (\<open>None\<close> when there is none); the pose is the slice from the
  first line that contains \<^verbatim>\<open>MODEL\<close> to the first line equal to \<^verbatim>\<open>ENDMDL\<close> with
  its newline, and \<^verbatim>\<open>lines.index\<close> raises ValueError when no line is equal to it.
\<close>

fun best_score :: "reader \<Rightarrow> line list \<Rightarrow> error + pyfloat option" where
  "best_score fl [] = Inr None"
| "best_score fl (l # ls) =
     (if contains l marker
      then (case score_field fl l of Inl e \<Rightarrow> Inl e | Inr v \<Rightarrow> Inr (Some v))
      else best_score fl ls)"

fun index_where :: "('a \<Rightarrow> bool) \<Rightarrow> 'a list \<Rightarrow> nat option" where
  "index_where P [] = None"
| "index_where P (x # xs) = (if P x then Some 0 else map_option Suc (index_where P xs))"

definition best_pose :: "line list \<Rightarrow> error + line list" where
  "best_pose ls =
     (case index_where (\<lambda>l. contains l ''MODEL'') ls of
        None \<Rightarrow> Inr []
      | Some i \<Rightarrow>
          (case index_where (\<lambda>l. l = ''ENDMDL\<newline>'') ls of
             None \<Rightarrow> Inl ValueError
           | Some j \<Rightarrow> Inr (drop i (take (j + 1) ls))))"

definition get_best_score_and_pose ::
  "reader \<Rightarrow> line list \<Rightarrow> error + (pyfloat option \<times> line list)" where
  "get_best_score_and_pose fl ls =
     (case best_score fl ls of
        Inl e \<Rightarrow> Inl e
      | Inr s \<Rightarrow> (case best_pose ls of Inl e \<Rightarrow> Inl e | Inr p \<Rightarrow> Inr (s, p)))"

text \<open>
  The loop over the second round's result directory. The state is the list of
  lines printed so far and the list \<open>results\<close>. A file with no score gets the
  message of line 51, and line 52 appends its record all the same.
\<close>

type_synonym pose_result = "pyfloat option \<times> string \<times> line list"

definition failed_message :: "string \<Rightarrow> string" where
  "failed_message pdbqt_file = ''Failed to extract binding affinity score from '' @ pdbqt_file"

fun scan_results ::
  "reader \<Rightarrow> string list \<Rightarrow> pose_result list \<Rightarrow> entry list
     \<Rightarrow> string list \<times> (error + pose_result list)" where
  "scan_results fl out results [] = (out, Inr results)"
| "scan_results fl out results ((pdbqt_file, ls) # rest) =
     (if endswith pdbqt_file ''.pdbqt''
      then (case get_best_score_and_pose fl ls of
              Inl e \<Rightarrow> (out, Inl e)
            | Inr (second_docking_score, best_pose_lines) \<Rightarrow>
                scan_results fl
                  (if second_docking_score = None then out @ [failed_message pdbqt_file] else out)
                  (results @ [(second_docking_score, pdbqt_file, best_pose_lines)]) rest)
      else scan_results fl out results rest)"

text \<open>
  \<^verbatim>\<open>results.sort(key=lambda x: x[0])\<close> where a key is a float or \<^verbatim>\<open>None\<close>. The
  sort compares keys with \<^verbatim>\<open><\<close>. A list of fewer than two records is returned
  without a comparison; in a longer list every key is compared with another
  one, and \<^verbatim>\<open><\<close> with a \<^verbatim>\<open>None\<close> operand raises TypeError. When all keys are
  floats the list is sorted as above.
\<close>

definition sort_by_score :: "sorter \<Rightarrow> pose_result list \<Rightarrow> error + pose_result list" where
  "sort_by_score srt results =
     (if length results \<le> 1 then Inr results
      else if None \<in> set (map fst results) then Inl TypeError
      else Inr (list_sort srt (\<lambda>r. the (fst r)) results))"

text \<open>
  Lines 46 to 55 as a whole: what was printed, and either the error that ended
  the function or the list \<^verbatim>\<open>top_10_poses\<close>. The literal 10 of line 55 is the
  parameter \<open>K\<close>; \<open>analyze_results\<close> is the source's instance. What the source does
  with the list afterwards (lines 57 to 79) is not part of the model.
\<close>

definition top_poses ::
  "nat \<Rightarrow> reader \<Rightarrow> sorter \<Rightarrow> entry list \<Rightarrow> string list \<times> (error + pose_result list)" where
  "top_poses K fl srt dir =
     (case scan_results fl [] [] dir of
        (out, Inl e) \<Rightarrow> (out, Inl e)
      | (out, Inr results) \<Rightarrow>
          (case sort_by_score srt results of
             Inl e \<Rightarrow> (out, Inl e)
           | Inr sorted_results \<Rightarrow> (out, Inr (take K sorted_results))))"

definition analyze_results ::
  "reader \<Rightarrow> sorter \<Rightarrow> entry list \<Rightarrow> string list \<times> (error + pose_result list)" where
  "analyze_results fl srt dir = top_poses 10 fl srt dir"

section \<open>The scheduling loop of \<^verbatim>\<open>docking_process\<close> and \<^verbatim>\<open>second_round_docking\<close>\<close>

text \<open>
  Lines 49 to 66 of \<^verbatim>\<open>Docking1.py\<close> and lines 45 to 62 of \<^verbatim>\<open>Docking2.py\<close> are the
  same loop: for each file a child process is started with \<^verbatim>\<open>Popen\<close> and its
  handle added to the set \<^verbatim>\<open>processes\<close>; when the set has reached
  \<^verbatim>\<open>psutil.cpu_count()\<close> handles, \<^verbatim>\<open>os.wait()\<close> blocks until some child has
  ended, and the handles whose \<^verbatim>\<open>poll()\<close> is not \<^verbatim>\<open>None\<close> are taken out of the
  set; after the loop every handle left is polled and, if still running,
  waited for.

  The script is one thread of control; the children run beside it. The model
  is a transition system: the script's state with the operating system's view
  of the children, a step of the script at a time, and between any two of them
  the steps of the environment, by which a running child ends. The points of
  the script at which the environment can be observed are the control points:
  \<^item> \<open>Loop\<close>: at the head of the \<^verbatim>\<open>for\<close> loop;
  \<^item> \<open>Waiting\<close>: at \<^verbatim>\<open>os.wait()\<close>;
  \<^item> \<open>Polling todo dead\<close>: inside the list comprehension, with the handles still
    to poll and those found ended;
  \<^item> \<open>Joining todo\<close>: in the last loop, with the handles still to visit;
  \<^item> \<open>JoinWait p todo\<close>: at \<^verbatim>\<open>p.wait()\<close>;
  \<^item> \<open>Returned\<close>: past the last loop;
  \<^item> \<open>Raised e\<close>: left by an exception.
\<close>

datatype point =
    Loop
  | Waiting
  | Polling "nat set" "nat set"
  | Joining "nat set"
  | JoinWait nat "nat set"
  | Returned
  | Raised error

text \<open>
  A handle is the number of the \<^verbatim>\<open>Popen\<close> call that made it. \<open>running\<close> are
  the children that still execute, \<open>exited\<close> those that have ended and have not
  been reaped yet; a child in neither has been reaped. \<open>launched\<close> lists the
  files a process was started for, \<open>pending\<close> those the loop has yet to reach.
\<close>

record sched =
  pending :: "string list"
  launched :: "string list"
  processes :: "nat set"
  running :: "nat set"
  exited :: "nat set"
  pc :: point

text \<open>
  \<open>Exit h\<close> is the environment's step: the running child \<open>h\<close> ends. \<open>Act h\<close> is
  the script's next step; \<open>h\<close> settles what the source leaves open, which ended
  child \<^verbatim>\<open>os.wait()\<close> reaps and which handle the iteration over the set visits
  next, and is not looked at elsewhere. \<open>Fail\<close> is \<^verbatim>\<open>Popen\<close> raising because the
  process cannot be started.
\<close>

datatype event = Exit nat | Fail | Act nat

definition init :: "string list \<Rightarrow> sched" where
  "init pdbqt_files =
     \<lparr>pending = pdbqt_files, launched = [], processes = {}, running = {}, exited = {},
      pc = Loop\<rparr>"

definition popen :: "sched \<Rightarrow> nat" where
  "popen s = length (launched s)"

text \<open>
  The script's step, with \<open>C\<close> for the value of \<^verbatim>\<open>psutil.cpu_count()\<close>, a
  number that does not change during the loop. (\<^verbatim>\<open>cpu_count\<close> may also give
  \<^verbatim>\<open>None\<close>, on which the comparison raises TypeError; \<open>C\<close> being a number, that
  case is outside the model.)
  \<^item> At \<open>Loop\<close> with a file left: \<^verbatim>\<open>Popen\<close>, \<^verbatim>\<open>processes.add\<close>, and the test
    \<^verbatim>\<open>len(processes) >= C\<close>. With no file left the last loop begins.
  \<^item> At \<open>Waiting\<close>: \<^verbatim>\<open>os.wait()\<close> raises ChildProcessError when the script has no
    child that is not reaped, reaps an ended child when there is one, and
    blocks otherwise (no step).
  \<^item> At \<open>Polling\<close>: \<^verbatim>\<open>p.poll()\<close> is \<^verbatim>\<open>None\<close> exactly when the child runs; an
    ended child is reaped by it, and for one reaped before it gives 0. When
    all handles are polled, \<^verbatim>\<open>difference_update\<close> removes the ended ones.
  \<^item> At \<open>Joining\<close>: \<^verbatim>\<open>p.poll()\<close> again, and \<^verbatim>\<open>p.wait()\<close> when it gave \<^verbatim>\<open>None\<close>;
    \<^verbatim>\<open>p.wait()\<close> blocks as long as the child runs.
\<close>

fun act :: "nat \<Rightarrow> nat \<Rightarrow> sched \<Rightarrow> sched option" where
  "act C h s =
     (case pc s of
        Loop \<Rightarrow>
          (case pending s of
             [] \<Rightarrow> Some (s\<lparr>pc := Joining (processes s)\<rparr>)
           | pdbqt_file # rest \<Rightarrow>
               (let p = popen s; ps = insert p (processes s) in
                Some (s\<lparr>pending := rest, launched := launched s @ [pdbqt_file],
                        processes := ps, running := insert p (running s),
                        pc := (if card ps \<ge> C then Waiting else Loop)\<rparr>)))
      | Waiting \<Rightarrow>
          (if running s \<union> exited s = {} then Some (s\<lparr>pc := Raised ChildProcessError\<rparr>)
           else if h \<in> exited s
           then Some (s\<lparr>exited := exited s - {h}, pc := Polling (processes s) {}\<rparr>)
           else None)
      | Polling todo dead \<Rightarrow>
          (if todo = {} then Some (s\<lparr>processes := processes s - dead, pc := Loop\<rparr>)
           else if h \<in> todo
           then (if h \<in> running s then Some (s\<lparr>pc := Polling (todo - {h}) dead\<rparr>)
                 else Some (s\<lparr>exited := exited s - {h},
                              pc := Polling (todo - {h}) (insert h dead)\<rparr>))
           else None)
      | Joining todo \<Rightarrow>
          (if todo = {} then Some (s\<lparr>pc := Returned\<rparr>)
           else if h \<in> todo
           then (if h \<in> running s then Some (s\<lparr>pc := JoinWait h (todo - {h})\<rparr>)
                 else Some (s\<lparr>exited := exited s - {h}, pc := Joining (todo - {h})\<rparr>))
           else None)
      | JoinWait p todo \<Rightarrow>
          (if p \<in> running s then None
           else Some (s\<lparr>exited := exited s - {p}, pc := Joining todo\<rparr>))
      | Returned \<Rightarrow> None
      | Raised e \<Rightarrow> None)"

fun step :: "nat \<Rightarrow> event \<Rightarrow> sched \<Rightarrow> sched option" where
  "step C (Exit h) s =
     (if h \<in> running s
      then Some (s\<lparr>running := running s - {h}, exited := insert h (exited s)\<rparr>)
      else None)"
| "step C Fail s =
     (if pc s = Loop \<and> pending s \<noteq> [] then Some (s\<lparr>pc := Raised OSError\<rparr>) else None)"
| "step C (Act h) s = act C h s"

text \<open>
  A run applies a sequence of events from a state; \<open>None\<close> when an event of the
  sequence was not possible where it came. Every state the script can be
  observed in, under every behaviour of the children, is the end of a run from
  \<open>init\<close>.
\<close>

fun run :: "nat \<Rightarrow> event list \<Rightarrow> sched \<Rightarrow> sched option" where
  "run C [] s = Some s"
| "run C (e # es) s = (case step C e s of None \<Rightarrow> None | Some s' \<Rightarrow> run C es s')"

text \<open>
  The children that have ended in a run, in the order in which they ended.
\<close>

fun exits :: "event list \<Rightarrow> nat list" where
  "exits [] = []"
| "exits (Exit h # evs) = h # exits evs"
| "exits (ev # evs) = exits evs"

text \<open>
  What holds at every control point, and a count of the steps a run can still
  take at most: each step of the script and each end of a child lowers it.
\<close>

definition sched_inv :: "nat \<Rightarrow> string list \<Rightarrow> sched \<Rightarrow> bool" where
  "sched_inv C jobs s \<longleftrightarrow>
     launched s @ pending s = jobs \<and>
     finite (processes s) \<and> card (processes s) \<le> C \<and>
     processes s \<subseteq> {..<length (launched s)} \<and>
     running s \<union> exited s \<subseteq> processes s \<and>
     running s \<inter> exited s = {} \<and>
     (case pc s of
        Loop \<Rightarrow> card (processes s) < C \<and> processes s = running s \<union> exited s
      | Waiting \<Rightarrow> C \<le> card (processes s) \<and> processes s = running s \<union> exited s
      | Polling todo dead \<Rightarrow>
          todo \<subseteq> processes s \<and> dead \<subseteq> processes s \<and>
          dead \<inter> (running s \<union> exited s) = {} \<and>
          processes s - (running s \<union> exited s) \<subseteq> todo \<union> dead \<and>
          processes s \<noteq> running s \<union> exited s
      | Joining todo \<Rightarrow> pending s = [] \<and> running s \<subseteq> todo \<and> todo \<subseteq> processes s
      | JoinWait p todo \<Rightarrow>
          pending s = [] \<and> running s \<subseteq> insert p todo \<and> todo \<subseteq> processes s
      | Returned \<Rightarrow> pending s = [] \<and> running s = {}
      | Raised e \<Rightarrow> e = OSError)"

definition work_left :: "nat \<Rightarrow> sched \<Rightarrow> nat" where
  "work_left C s =
     (C + 4) * length (pending s) + card (running s) +
     (case pc s of
        Loop \<Rightarrow> 2 * C + 2
      | Waiting \<Rightarrow> 3 * C + 4
      | Polling todo dead \<Rightarrow> 2 * C + 3 + card todo
      | Joining todo \<Rightarrow> 2 * card todo + 1
      | JoinWait q todo \<Rightarrow> 2 * card todo + 2
      | Returned \<Rightarrow> 0
      | Raised e \<Rightarrow> 0)"

section \<open>Inputs of the scenarios\<close>

text \<open>
  A result line as the docking engine writes it: the marker, then the score and
  two more fields. \<open>three_files\<close> is a result directory of three files with the
  scores -5.0, -9.3 and -7.1, and \<open>nan_files\<close> one with -5.0, \<^verbatim>\<open>nan\<close> and -7.1;
  \<open>one_unscored\<close> adds to one scored file a file that has no marker line (an
  empty output file), and \<open>only_unscored\<close> holds that file alone.
\<close>

definition result_line :: "string \<Rightarrow> line" where
  "result_line s = ''REMARK VINA RESULT:    '' @ s @ ''      0.000      0.000\<newline>''"

definition three_files :: "entry list" where
  "three_files =
     [(''m1.pdbqt'', [result_line ''-5.0'']),
      (''m2.pdbqt'', [result_line ''-9.3'']),
      (''m3.pdbqt'', [result_line ''-7.1''])]"

definition nan_files :: "entry list" where
  "nan_files =
     [(''m1.pdbqt'', [result_line ''-5.0'']),
      (''m2.pdbqt'', [result_line ''nan'']),
      (''m3.pdbqt'', [result_line ''-7.1''])]"

definition one_unscored :: "entry list" where
  "one_unscored = [(''m1.pdbqt'', [result_line ''-7.1'']), (''m2.pdbqt'', [])]"

definition only_unscored :: "entry list" where
  "only_unscored = [(''m2.pdbqt'', [])]"

text \<open>
  A batch of three files and a run of the scheduling loop on it with two
  processors: the second child ends first, the third is still running when
  the last loop reaches it.
\<close>

definition three_jobs :: "string list" where
  "three_jobs = [''m1.pdbqt'', ''m2.pdbqt'', ''m3.pdbqt'']"

definition demo :: "event list" where
  "demo = [Act 0, Act 0, Exit 1, Act 1, Act 0, Act 1, Act 0,
        Act 0, Exit 0, Act 0, Act 0, Act 2, Act 0, Act 0, Act 2, Exit 2, Act 0, Act 0]"

section \<open>Properties of the order and of the sort\<close>

lemma float_lt_total: "a \<noteq> NaN \<Longrightarrow> b \<noteq> NaN \<Longrightarrow> \<not> float_lt b a \<Longrightarrow> float_le a b"
  by (cases a; cases b) (auto simp: float_le_def)

lemma float_lt_le: "float_lt a b \<Longrightarrow> float_le a b"
  by (simp add: float_le_def)

lemma float_le_trans: "float_le a b \<Longrightarrow> float_le b c \<Longrightarrow> float_le a c"
  by (cases a; cases b; cases c) (auto simp: float_le_def)

lemma set_insert_by: "set (insert_by key x ys) = insert x (set ys)"
  by (induction ys) auto

lemma mset_insert_by: "mset (insert_by key x ys) = add_mset x (mset ys)"
  by (induction ys) auto

lemma mset_stable_sort: "mset (stable_sort key xs) = mset xs"
  by (induction xs) (auto simp: stable_sort_def mset_insert_by)

lemma set_stable_sort: "set (stable_sort key xs) = set xs"
  using mset_stable_sort [of key xs] by (metis set_mset_mset)

lemma ascending_insert_by:
  assumes "key x \<noteq> NaN" "\<forall>y\<in>set ys. key y \<noteq> NaN" "ascending key ys"
  shows "ascending key (insert_by key x ys)"
  using assms
proof (induction ys)
  case Nil
  then show ?case by simp
next
  case (Cons y ys)
  show ?case
  proof (cases "float_lt (key y) (key x)")
    case True
    have "ascending key (insert_by key x ys)" using Cons by simp
    moreover have "\<forall>z\<in>set (insert_by key x ys). float_le (key y) (key z)"
      using True Cons.prems by (auto simp: set_insert_by float_lt_le)
    ultimately show ?thesis using True by simp
  next
    case False
    then have xy: "float_le (key x) (key y)"
      using Cons.prems by (auto intro: float_lt_total)
    then have "\<forall>z\<in>set ys. float_le (key x) (key z)"
      using Cons.prems by (auto intro: float_le_trans)
    with xy False Cons.prems show ?thesis by simp
  qed
qed

lemma ascending_stable_sort:
  "\<forall>x\<in>set xs. key x \<noteq> NaN \<Longrightarrow> ascending key (stable_sort key xs)"
proof (induction xs)
  case Nil
  then show ?case by (simp add: stable_sort_def)
next
  case (Cons x xs)
  have "ascending key (insert_by key x (stable_sort key xs))"
    using Cons by (intro ascending_insert_by) (auto simp: set_stable_sort)
  then show ?case by (simp add: stable_sort_def)
qed

lemma float_lt_irrefl: "\<not> float_lt a a"
  by (cases a) auto

lemma filter_insert_by:
  "filter (\<lambda>r. key r = k) (insert_by key x ys) =
     (if key x = k then x # filter (\<lambda>r. key r = k) ys else filter (\<lambda>r. key r = k) ys)"
  by (induction ys) (auto simp: float_lt_irrefl)

lemma filter_stable_sort:
  "filter (\<lambda>r. key r = k) (stable_sort key xs) = filter (\<lambda>r. key r = k) xs"
  by (induction xs) (auto simp: stable_sort_def filter_insert_by)

lemma single_run_ascending:
  "\<forall>x\<in>set xs. key x \<noteq> NaN \<Longrightarrow> single_run (map key xs) \<Longrightarrow> ascending key xs"
proof (induction xs rule: induct_list012)
  case 1 then show ?case by simp
next
  case (2 x) then show ?case by simp
next
  case (3 x y zs)
  then have a: "ascending key (y # zs)" and xy: "float_le (key x) (key y)"
    by (auto intro: float_lt_total)
  from a have "\<forall>z\<in>set zs. float_le (key y) (key z)" by simp
  with xy have "\<forall>z\<in>set zs. float_le (key x) (key z)" by (auto intro: float_le_trans)
  with a xy show ?case by simp
qed

lemma ascending_unique:
  "ascending key xs \<Longrightarrow> stable_sort key xs = xs"
proof (induction xs)
  case Nil then show ?case by (simp add: stable_sort_def)
next
  case (Cons x xs)
  then have s: "stable_sort key xs = xs" by simp
  have "insert_by key x xs = x # xs"
  proof (cases xs)
    case Nil then show ?thesis by simp
  next
    case (Cons y ys)
    with Cons.prems have "float_le (key x) (key y)" by simp
    then have "\<not> float_lt (key y) (key x)"
      by (cases "key x"; cases "key y") (auto simp: float_le_def)
    with Cons show ?thesis by simp
  qed
  with s show ?case by (simp add: stable_sort_def)
qed

lemma list_sort_numbers:
  assumes "NaN \<notin> set (map key xs)"
  shows "list_sort srt key xs = stable_sort key xs"
proof (cases "single_run (map key xs)")
  case True
  moreover have "\<forall>x\<in>set xs. key x \<noteq> NaN" using assms by force
  ultimately have "ascending key xs" by (intro single_run_ascending)
  then have "stable_sort key xs = xs" by (rule ascending_unique)
  with True show ?thesis by (simp add: list_sort_def)
next
  case False
  with assms show ?thesis by (simp add: list_sort_def)
qed

lemma float_lt_asym: "float_lt a b \<Longrightarrow> \<not> float_lt b a"
  by (cases a; cases b) auto

lemma float_lt_trans: "float_lt a b \<Longrightarrow> float_lt b c \<Longrightarrow> float_lt a c"
  by (cases a; cases b; cases c) auto

lemma float_lt_not_nan: "float_lt a b \<Longrightarrow> a \<noteq> NaN \<and> b \<noteq> NaN"
  by (cases a; cases b) auto

text \<open>On a list without \<^verbatim>\<open>nan\<close> the sort gives an ascending, stable rearrangement.\<close>

lemma list_sort_ascending:
  assumes "NaN \<notin> set (map key xs)"
  shows "mset (list_sort srt key xs) = mset xs"
    and "ascending key (list_sort srt key xs)"
    and "filter (\<lambda>r. key r = k) (list_sort srt key xs) = filter (\<lambda>r. key r = k) xs"
proof -
  have e: "list_sort srt key xs = stable_sort key xs" using assms by (rule list_sort_numbers)
  have n: "\<forall>x\<in>set xs. key x \<noteq> NaN" using assms by force
  show "mset (list_sort srt key xs) = mset xs" by (simp add: e mset_stable_sort)
  show "ascending key (list_sort srt key xs)" using n by (simp add: e ascending_stable_sort)
  show "filter (\<lambda>r. key r = k) (list_sort srt key xs) = filter (\<lambda>r. key r = k) xs"
    by (simp add: e filter_stable_sort)
qed

section \<open>Properties of the ranking\<close>

lemmas text_defs = startswith_def endswith_def marker_def split_def isspace_def score_field_def
  decimal_def unsigned_decimal_def isdigit_def result_line_def lower_def

lemma collect_nan:
  "collect_results decimal [] nan_files =
     Inr [(Fin (-5), ''m1.pdbqt''), (NaN, ''m2.pdbqt''), (Fin (-7.1), ''m3.pdbqt'')]"
  by (simp add: nan_files_def text_defs)

lemma scan_nan:
  "scan_results decimal [] [] nan_files =
     ([], Inr [(Some (Fin (-5)), ''m1.pdbqt'', []), (Some NaN, ''m2.pdbqt'', []),
               (Some (Fin (-7.1)), ''m3.pdbqt'', [])])"
  by (simp add: nan_files_def text_defs get_best_score_and_pose_def best_pose_def)

lemma scan_one_unscored:
  "scan_results decimal [] [] one_unscored =
     ([failed_message ''m2.pdbqt''],
      Inr [(Some (Fin (-7.1)), ''m1.pdbqt'', []), (None, ''m2.pdbqt'', [])])"
  by (simp add: one_unscored_def text_defs get_best_score_and_pose_def best_pose_def)

lemma scan_only_unscored:
  "scan_results decimal [] [] only_unscored =
     ([failed_message ''m2.pdbqt''], Inr [(None, ''m2.pdbqt'', [])])"
  by (simp add: only_unscored_def text_defs get_best_score_and_pose_def best_pose_def)

text \<open>
  The three files of the scenario, under any reader that reads their scores
  as \<open>a\<close>, \<open>b\<close> and \<open>c\<close>.
\<close>

lemma collect_three:
  assumes "fl ''-5.0'' = Some a" "fl ''-9.3'' = Some b" "fl ''-7.1'' = Some c"
  shows "collect_results fl [] three_files =
           Inr [(a, ''m1.pdbqt''), (b, ''m2.pdbqt''), (c, ''m3.pdbqt'')]"
  using assms
  by (simp add: three_files_def startswith_def endswith_def marker_def split_def isspace_def
        score_field_def result_line_def)

lemma scan_three:
  assumes "fl ''-5.0'' = Some a" "fl ''-9.3'' = Some b" "fl ''-7.1'' = Some c"
  shows "scan_results fl [] [] three_files =
           ([], Inr [(Some a, ''m1.pdbqt'', []), (Some b, ''m2.pdbqt'', []),
                     (Some c, ''m3.pdbqt'', [])])"
  using assms
  by (simp add: three_files_def startswith_def endswith_def marker_def split_def isspace_def
        score_field_def result_line_def get_best_score_and_pose_def best_pose_def)

lemma sort_three:
  assumes "float_lt (key y) (key z)" "float_lt (key z) (key x)"
  shows "list_sort srt key [x, y, z] = [y, z, x]"
proof -
  have yx: "float_lt (key y) (key x)" using assms by (rule float_lt_trans)
  have nn: "key x \<noteq> NaN" "key y \<noteq> NaN" "key z \<noteq> NaN"
    using assms float_lt_not_nan by blast+
  have nz: "\<not> float_lt (key z) (key y)" using assms(1) by (rule float_lt_asym)
  show ?thesis using yx nn nz assms by (simp add: list_sort_def stable_sort_def)
qed

text \<open>
  The loop of \<open>docking_process\<close> only ever extends the list it was given, so a
  run from any list is a run from the empty one with the list put in front.
\<close>

lemma collect_results_from:
  "collect_results fl acc dir = Inr rs \<longleftrightarrow>
     (\<exists>new. collect_results fl [] dir = Inr new \<and> rs = acc @ new)"
proof (induction dir arbitrary: acc rs)
  case Nil
  then show ?case by auto
next
  case (Cons f dir)
  obtain name ls where f: "f = (name, ls)" by (cases f)
  show ?case
  proof (cases "endswith name ''.pdbqt''")
    case False
    with f Cons.IH [of acc rs] show ?thesis by simp
  next
    case True
    show ?thesis
    proof (cases "first_affinity fl ls")
      case (Inl e)
      with f True show ?thesis by simp
    next
      case (Inr v)
      show ?thesis
      proof (cases v)
        case None
        with f True Inr Cons.IH [of acc rs] show ?thesis by simp
      next
        case (Some a)
        have "collect_results fl acc (f # dir) = collect_results fl (acc @ [(a, name)]) dir"
          using f True Inr Some by simp
        moreover have "collect_results fl [] (f # dir) = collect_results fl [(a, name)] dir"
          using f True Inr Some by simp
        ultimately show ?thesis
          using Cons.IH [of "acc @ [(a, name)]" rs] Cons.IH [of "[(a, name)]"]
          by auto
      qed
    qed
  qed
qed

text \<open>
  What \<open>docking_process\<close> ranks are the files named \<^verbatim>\<open>.pdbqt\<close> that have a
  marker line, in the order of the directory; and, no score being \<^verbatim>\<open>nan\<close>, the
  ranked list has as many entries as the bound allows among them.
\<close>

lemma collect_results_names:
  "collect_results fl [] dir = Inr rs \<Longrightarrow>
     map snd rs =
       map fst (filter (\<lambda>e. endswith (fst e) ''.pdbqt'' \<and> first_affinity fl (snd e) \<noteq> Inr None) dir)"
proof (induction dir arbitrary: rs)
  case Nil
  then show ?case by simp
next
  case (Cons f dir)
  obtain name ls where f: "f = (name, ls)" by (cases f)
  show ?case
  proof (cases "endswith name ''.pdbqt''")
    case False
    with f Cons show ?thesis by simp
  next
    case True
    show ?thesis
    proof (cases "first_affinity fl ls")
      case (Inl e)
      with f True Cons.prems show ?thesis by simp
    next
      case (Inr v)
      show ?thesis
      proof (cases v)
        case None
        with f True Inr Cons show ?thesis by simp
      next
        case (Some a)
        with f True Inr Cons.prems have "collect_results fl [(a, name)] dir = Inr rs" by simp
        then obtain new where n: "collect_results fl [] dir = Inr new" and rs: "rs = (a, name) # new"
          using collect_results_from [of fl "[(a, name)]" dir rs] by auto
        from Cons.IH [OF n] f True Inr Some rs show ?thesis by simp
      qed
    qed
  qed
qed

lemma top_ligands_length:
  assumes "collect_results fl [] dir = Inr results" and "NaN \<notin> set (map fst results)"
  shows "\<exists>sel. top_ligands K fl srt dir = Inr sel \<and> length sel = min K (length results)"
proof -
  have "length (list_sort srt fst results) = length results"
    using list_sort_ascending(1) [OF assms(2), of srt] by (metis size_mset)
  with assms(1) show ?thesis by (simp add: top_ligands_def min.commute)
qed

lemma sort_by_score_present:
  assumes "None \<notin> set (map fst rs)"
  shows "sort_by_score srt rs = Inr (list_sort srt (\<lambda>r. the (fst r)) rs)"
proof (cases "length rs \<le> 1")
  case True
  then have "rs = [] \<or> (\<exists>r. rs = [r])" by (cases rs) auto
  then have "single_run (map (\<lambda>r. the (fst r)) rs)" by auto
  with True show ?thesis by (simp add: sort_by_score_def list_sort_def)
next
  case False
  with assms show ?thesis by (simp add: sort_by_score_def)
qed

text \<open>
  C4, as amended. Whenever no score read is \<^verbatim>\<open>nan\<close>, and in \<open>analyze_results\<close>
  every record has a score, the ranking orders the results ascending by score,
  ties in input order, and keeps the first \<open>K\<close> of that order; \<open>docking_process\<close>
  does so of every directory whose files could be read. \<open>K\<close> stands for the
  literal 500 of \<open>docking_process\<close> and the literal 10 of \<open>analyze_results\<close>. On
  three files whose scores are read as \<open>a\<close> from -5.0, \<open>b\<close> from -9.3 and \<open>c\<close> from
  -7.1, with \<open>b < c < a\<close>, a bound of 2 gives \<open>b\<close> and then \<open>c\<close> and not \<open>a\<close>, and
  the source's own bounds give \<open>b\<close>, \<open>c\<close> and \<open>a\<close>.
\<close>

theorem ranking_ascending_numbers:
  "(collect_results fl [] dir = Inr results \<and> NaN \<notin> set (map fst results) \<longrightarrow>
      (\<exists>ranked. mset ranked = mset results \<and> ascending fst ranked \<and>
         (\<forall>k. filter (\<lambda>r. fst r = k) ranked = filter (\<lambda>r. fst r = k) results) \<and>
         top_ligands K fl srt dir = Inr (take K ranked)))
   \<and> (scan_results fl [] [] dir = (out, Inr presults) \<and>
        None \<notin> set (map fst presults) \<and> Some NaN \<notin> set (map fst presults) \<longrightarrow>
      (\<exists>ranked. mset ranked = mset presults \<and> ascending (\<lambda>r. the (fst r)) ranked \<and>
         (\<forall>k. filter (\<lambda>r. fst r = k) ranked = filter (\<lambda>r. fst r = k) presults) \<and>
         top_poses K fl srt dir = (out, Inr (take K ranked))))
   \<and> (fl ''-5.0'' = Some a \<and> fl ''-9.3'' = Some b \<and> fl ''-7.1'' = Some c \<and>
        float_lt b c \<and> float_lt c a \<longrightarrow>
        top_ligands 2 fl srt three_files = Inr [(b, ''m2.pdbqt''), (c, ''m3.pdbqt'')]
      \<and> top_poses 2 fl srt three_files =
          ([], Inr [(Some b, ''m2.pdbqt'', []), (Some c, ''m3.pdbqt'', [])])
      \<and> docking_process fl srt three_files =
          Inr [(b, ''m2.pdbqt''), (c, ''m3.pdbqt''), (a, ''m1.pdbqt'')]
      \<and> analyze_results fl srt three_files =
          ([], Inr [(Some b, ''m2.pdbqt'', []), (Some c, ''m3.pdbqt'', []),
                    (Some a, ''m1.pdbqt'', [])]))"
proof (intro conjI impI)
  assume h: "collect_results fl [] dir = Inr results \<and> NaN \<notin> set (map fst results)"
  let ?ranked = "list_sort srt fst results"
  from h have n: "NaN \<notin> set (map fst results)" by simp
  have "mset ?ranked = mset results" using n by (rule list_sort_ascending(1))
  moreover have "ascending fst ?ranked" using n by (rule list_sort_ascending(2))
  moreover have "\<forall>k. filter (\<lambda>r. fst r = k) ?ranked = filter (\<lambda>r. fst r = k) results"
    using n by (simp add: list_sort_ascending(3))
  moreover have "top_ligands K fl srt dir = Inr (take K ?ranked)"
    using h by (simp add: top_ligands_def)
  ultimately show "\<exists>ranked. mset ranked = mset results \<and> ascending fst ranked \<and>
         (\<forall>k. filter (\<lambda>r. fst r = k) ranked = filter (\<lambda>r. fst r = k) results) \<and>
         top_ligands K fl srt dir = Inr (take K ranked)"
    by blast
next
  assume h: "scan_results fl [] [] dir = (out, Inr presults) \<and>
             None \<notin> set (map fst presults) \<and> Some NaN \<notin> set (map fst presults)"
  let ?key = "\<lambda>r::pose_result. the (fst r)"
  let ?ranked = "list_sort srt ?key presults"
  from h have some: "\<forall>r\<in>set presults. fst r \<noteq> None" by force
  have n: "NaN \<notin> set (map ?key presults)"
  proof
    assume "NaN \<in> set (map ?key presults)"
    then obtain r where r: "r \<in> set presults" "the (fst r) = NaN" by auto
    with some have "fst r = Some NaN" by (cases "fst r") auto
    with r(1) h show False by force
  qed
  have s: "sort_by_score srt presults = Inr ?ranked"
    using h by (simp add: sort_by_score_present)
  have m: "mset ?ranked = mset presults" using n by (rule list_sort_ascending(1))
  then have "set ?ranked = set presults" by (rule mset_eq_setD)
  with some have some': "\<forall>r\<in>set ?ranked. fst r \<noteq> None" by simp
  have "ascending ?key ?ranked" using n by (rule list_sort_ascending(2))
  moreover have "\<forall>k. filter (\<lambda>r. fst r = k) ?ranked = filter (\<lambda>r. fst r = k) presults"
  proof
    fix k
    have "filter (\<lambda>r. fst r = k) ?ranked = filter (\<lambda>r. ?key r = the k \<and> k \<noteq> None) ?ranked"
      using some' by (intro filter_cong) auto
    also have "\<dots> = filter (\<lambda>r. k \<noteq> None) (filter (\<lambda>r. ?key r = the k) ?ranked)"
      by (simp add: conj_commute)
    also have "\<dots> = filter (\<lambda>r. k \<noteq> None) (filter (\<lambda>r. ?key r = the k) presults)"
      using list_sort_ascending(3) [OF n, where srt = srt and k = "the k"] by simp
    also have "\<dots> = filter (\<lambda>r. ?key r = the k \<and> k \<noteq> None) presults"
      by (simp add: conj_commute)
    also have "\<dots> = filter (\<lambda>r. fst r = k) presults"
      using some by (intro filter_cong) auto
    finally show "filter (\<lambda>r. fst r = k) ?ranked = filter (\<lambda>r. fst r = k) presults" .
  qed
  moreover have "top_poses K fl srt dir = (out, Inr (take K ?ranked))"
    using h s by (simp add: top_poses_def)
  ultimately show "\<exists>ranked. mset ranked = mset presults \<and>
         ascending (\<lambda>r. the (fst r)) ranked \<and>
         (\<forall>k. filter (\<lambda>r. fst r = k) ranked = filter (\<lambda>r. fst r = k) presults) \<and>
         top_poses K fl srt dir = (out, Inr (take K ranked))"
    using m by blast
next
  assume h: "fl ''-5.0'' = Some a \<and> fl ''-9.3'' = Some b \<and> fl ''-7.1'' = Some c \<and>
             float_lt b c \<and> float_lt c a"
  then have c: "collect_results fl [] three_files =
                  Inr [(a, ''m1.pdbqt''), (b, ''m2.pdbqt''), (c, ''m3.pdbqt'')]"
    by (intro collect_three) simp_all
  have srt1: "list_sort srt fst [(a, ''m1.pdbqt''), (b, ''m2.pdbqt''), (c, ''m3.pdbqt'')] =
                [(b, ''m2.pdbqt''), (c, ''m3.pdbqt''), (a, ''m1.pdbqt'')]"
    using h by (intro sort_three) simp_all
  show "top_ligands 2 fl srt three_files = Inr [(b, ''m2.pdbqt''), (c, ''m3.pdbqt'')]"
    by (simp add: top_ligands_def c srt1)
  show "docking_process fl srt three_files =
          Inr [(b, ''m2.pdbqt''), (c, ''m3.pdbqt''), (a, ''m1.pdbqt'')]"
    by (simp add: docking_process_def top_ligands_def c srt1)
  from h have s: "scan_results fl [] [] three_files =
                  ([], Inr [(Some a, ''m1.pdbqt'', []), (Some b, ''m2.pdbqt'', []),
                            (Some c, ''m3.pdbqt'', [])])"
    by (intro scan_three) simp_all
  have srt2: "list_sort srt (\<lambda>r. the (fst r))
                [(Some a, ''m1.pdbqt'', []::line list), (Some b, ''m2.pdbqt'', []),
                 (Some c, ''m3.pdbqt'', [])] =
                [(Some b, ''m2.pdbqt'', []), (Some c, ''m3.pdbqt'', []), (Some a, ''m1.pdbqt'', [])]"
    using h by (intro sort_three) simp_all
  show "top_poses 2 fl srt three_files =
          ([], Inr [(Some b, ''m2.pdbqt'', []), (Some c, ''m3.pdbqt'', [])])"
    by (simp add: top_poses_def s sort_by_score_def srt2)
  show "analyze_results fl srt three_files =
          ([], Inr [(Some b, ''m2.pdbqt'', []), (Some c, ''m3.pdbqt'', []),
                    (Some a, ''m1.pdbqt'', [])])"
    by (simp add: analyze_results_def top_poses_def s sort_by_score_def srt2)
qed

theorem ranking_ascending_numbers_witness:
  "collect_results decimal [] three_files =
     Inr [(Fin (-5), ''m1.pdbqt''), (Fin (-9.3), ''m2.pdbqt''), (Fin (-7.1), ''m3.pdbqt'')]
   \<and> NaN \<notin> set (map fst [(Fin (-5), ''m1.pdbqt''), (Fin (-9.3), ''m2.pdbqt''),
                          (Fin (-7.1), ''m3.pdbqt'')])
   \<and> (\<exists>ranked. ascending fst ranked \<and>
         top_ligands 2 decimal as_given three_files = Inr (take 2 ranked))
   \<and> scan_results decimal [] [] three_files =
       ([], Inr [(Some (Fin (-5)), ''m1.pdbqt'', []), (Some (Fin (-9.3)), ''m2.pdbqt'', []),
                 (Some (Fin (-7.1)), ''m3.pdbqt'', [])])
   \<and> (\<exists>ranked. ascending (\<lambda>r. the (fst r)) ranked \<and>
         top_poses 2 decimal as_given three_files = ([], Inr (take 2 (ranked :: pose_result list))))
   \<and> decimal ''-5.0'' = Some (Fin (-5)) \<and> decimal ''-9.3'' = Some (Fin (-9.3))
   \<and> decimal ''-7.1'' = Some (Fin (-7.1))
   \<and> float_lt (Fin (-9.3)) (Fin (-7.1)) \<and> float_lt (Fin (-7.1)) (Fin (-5))
   \<and> top_ligands 2 decimal as_given three_files =
       Inr [(Fin (-9.3), ''m2.pdbqt''), (Fin (-7.1), ''m3.pdbqt'')]
   \<and> docking_process decimal as_given three_files =
       Inr [(Fin (-9.3), ''m2.pdbqt''), (Fin (-7.1), ''m3.pdbqt''), (Fin (-5), ''m1.pdbqt'')]"
proof -
  let ?rs = "[(Fin (-5), ''m1.pdbqt''), (Fin (-9.3), ''m2.pdbqt''), (Fin (-7.1), ''m3.pdbqt'')]"
  let ?ps = "[(Some (Fin (-5)), ''m1.pdbqt'', []::line list), (Some (Fin (-9.3)), ''m2.pdbqt'', []),
              (Some (Fin (-7.1)), ''m3.pdbqt'', [])]"
  have d: "decimal ''-5.0'' = Some (Fin (-5))" "decimal ''-9.3'' = Some (Fin (-9.3))"
    "decimal ''-7.1'' = Some (Fin (-7.1))"
    by (simp_all add: decimal_def unsigned_decimal_def isdigit_def lower_def)
  have lt: "float_lt (Fin (-9.3)) (Fin (-7.1))" "float_lt (Fin (-7.1)) (Fin (-5))"
    by simp_all
  have c: "collect_results decimal [] three_files = Inr ?rs \<and> NaN \<notin> set (map fst ?rs)"
    using collect_three [OF d] by simp
  have s: "scan_results decimal [] [] three_files = ([], Inr ?ps)
           \<and> None \<notin> set (map fst ?ps) \<and> Some NaN \<notin> set (map fst ?ps)"
    using scan_three [OF d] by simp
  from ranking_ascending_numbers
         [where fl = decimal and srt = as_given and dir = three_files and results = ?rs
            and K = 2 and out = "[]" and presults = ?ps
            and a = "Fin (-5)" and b = "Fin (-9.3)" and c = "Fin (-7.1)"]
       c s d lt
  show ?thesis by blast
qed

text \<open>
  C4 without the two conditions. Where a score is read as \<^verbatim>\<open>nan\<close> the ranking
  need not be ascending: on the files with the scores -5.0, \<^verbatim>\<open>nan\<close> and -7.1
  the sort leaves the list as it is, the most negative score comes last, and a
  bound of 2 leaves it out. And where a record of \<open>analyze_results\<close> has no
  score, among two or more, nothing is ranked.
\<close>

theorem ranking_nan_counterexample:
  "top_ligands 2 decimal as_given nan_files = Inr [(Fin (-5), ''m1.pdbqt''), (NaN, ''m2.pdbqt'')]
   \<and> docking_process decimal as_given nan_files =
       Inr [(Fin (-5), ''m1.pdbqt''), (NaN, ''m2.pdbqt''), (Fin (-7.1), ''m3.pdbqt'')]
   \<and> analyze_results decimal as_given nan_files =
       ([], Inr [(Some (Fin (-5)), ''m1.pdbqt'', []), (Some NaN, ''m2.pdbqt'', []),
                 (Some (Fin (-7.1)), ''m3.pdbqt'', [])])
   \<and> float_lt (Fin (-7.1)) (Fin (-5))
   \<and> \<not> ascending fst [(Fin (-5), ''m1.pdbqt''), (NaN, ''m2.pdbqt''), (Fin (-7.1), ''m3.pdbqt'')]
   \<and> analyze_results decimal as_given one_unscored =
       ([failed_message ''m2.pdbqt''], Inl TypeError)"
proof (intro conjI)
  show "top_ligands 2 decimal as_given nan_files =
          Inr [(Fin (-5), ''m1.pdbqt''), (NaN, ''m2.pdbqt'')]"
    by (simp add: top_ligands_def collect_nan list_sort_def)
  show "docking_process decimal as_given nan_files =
       Inr [(Fin (-5), ''m1.pdbqt''), (NaN, ''m2.pdbqt''), (Fin (-7.1), ''m3.pdbqt'')]"
    by (simp add: docking_process_def top_ligands_def collect_nan list_sort_def)
  show "analyze_results decimal as_given nan_files =
       ([], Inr [(Some (Fin (-5)), ''m1.pdbqt'', []), (Some NaN, ''m2.pdbqt'', []),
                 (Some (Fin (-7.1)), ''m3.pdbqt'', [])])"
    by (simp add: analyze_results_def top_poses_def scan_nan sort_by_score_def list_sort_def)
  show "float_lt (Fin (-7.1)) (Fin (-5))" by simp
  show "\<not> ascending fst [(Fin (-5), ''m1.pdbqt''), (NaN, ''m2.pdbqt''), (Fin (-7.1), ''m3.pdbqt'')]"
    by (simp add: float_le_def)
  show "analyze_results decimal as_given one_unscored =
       ([failed_message ''m2.pdbqt''], Inl TypeError)"
    by (simp add: analyze_results_def top_poses_def scan_one_unscored sort_by_score_def)
qed

text \<open>
  In \<open>analyze_results\<close> a record without a score, among two records or more,
  always ends the ranking with TypeError.
\<close>

lemma absent_score_raises:
  assumes "scan_results fl [] [] dir = (out, Inr results)"
    and "None \<in> set (map fst results)" and "2 \<le> length results"
  shows "top_poses K fl srt dir = (out, Inl TypeError)"
  using assms by (simp add: top_poses_def sort_by_score_def)

text \<open>
  C2. A result file with no marker line, next to a scored one: \<open>analyze_results\<close>
  prints the message for it, keeps its record, and the sort then raises
  TypeError, so no selection is made. With that file alone the sort compares
  nothing and the record without a score is the selection. On the same input
  \<open>docking_process\<close> leaves the file out and ranks the other one (it has no
  message to print).
\<close>

theorem analyze_results_absent_score:
  "analyze_results decimal srt one_unscored = ([failed_message ''m2.pdbqt''], Inl TypeError)
   \<and> analyze_results decimal srt only_unscored =
       ([failed_message ''m2.pdbqt''], Inr [(None, ''m2.pdbqt'', [])])
   \<and> docking_process decimal srt one_unscored = Inr [(Fin (-7.1), ''m1.pdbqt'')]"
proof (intro conjI)
  show "analyze_results decimal srt one_unscored = ([failed_message ''m2.pdbqt''], Inl TypeError)"
    by (simp add: analyze_results_def top_poses_def scan_one_unscored sort_by_score_def)
  show "analyze_results decimal srt only_unscored =
       ([failed_message ''m2.pdbqt''], Inr [(None, ''m2.pdbqt'', [])])"
    by (simp add: analyze_results_def top_poses_def scan_only_unscored sort_by_score_def)
  show "docking_process decimal srt one_unscored = Inr [(Fin (-7.1), ''m1.pdbqt'')]"
    by (simp add: docking_process_def top_ligands_def one_unscored_def text_defs list_sort_def)
qed

text \<open>
  C3. On the directory that holds only the file with no marker line, the list
  \<^verbatim>\<open>top_10_poses\<close> of \<open>analyze_results\<close> has one entry, while no record has a
  score: its length is not the smaller of 10 and the number of scored records.
\<close>

theorem analyze_results_length_counts_unscored:
  "(\<exists>out results sel.
      scan_results decimal [] [] only_unscored = (out, Inr results)
      \<and> analyze_results decimal srt only_unscored = (out, Inr sel)
      \<and> length sel = 1
      \<and> length (filter (\<lambda>r. fst r \<noteq> None) results) = 0
      \<and> length sel \<noteq> min 10 (length (filter (\<lambda>r. fst r \<noteq> None) results)))"
proof -
  have "analyze_results decimal srt only_unscored =
          ([failed_message ''m2.pdbqt''], Inr [(None, ''m2.pdbqt'', [])])"
    by (simp add: analyze_results_def top_poses_def scan_only_unscored sort_by_score_def)
  with scan_only_unscored show ?thesis by simp
qed

section \<open>Properties of the scheduling loop\<close>

lemma inv_init: "1 \<le> C \<Longrightarrow> sched_inv C jobs (init jobs)"
  by (simp add: sched_inv_def init_def)

lemma inv_exit:
  assumes "sched_inv C jobs s" "step C (Exit h) s = Some s'"
  shows "sched_inv C jobs s'"
proof -
  from assms(2) have h: "h \<in> running s"
    and s': "s' = s\<lparr>running := running s - {h}, exited := insert h (exited s)\<rparr>"
    by (auto split: if_splits)
  have u: "running s' \<union> exited s' = running s \<union> exited s"
    using h s' by auto
  have d: "running s' \<inter> exited s' = {}"
    using assms(1) s' by (auto simp: sched_inv_def)
  have r: "running s' \<subseteq> running s" using s' by auto
  show ?thesis
    using assms(1) u d r unfolding sched_inv_def s'
    by (cases "pc s") (auto simp del: Un_Diff_cancel Un_Diff_cancel2)
qed

lemma inv_fail:
  assumes "sched_inv C jobs s" "step C Fail s = Some s'"
  shows "sched_inv C jobs s'"
  using assms by (auto simp: sched_inv_def split: if_splits)

lemma inv_act_loop:
  assumes i: "sched_inv C jobs s" and p: "pc s = Loop" and a: "act C h s = Some s'"
  shows "sched_inv C jobs s'"
proof (cases "pending s")
  case Nil
  with a p have s': "s' = s\<lparr>pc := Joining (processes s)\<rparr>" by simp
  show ?thesis using i p Nil unfolding sched_inv_def s' by auto
next
  case (Cons f rest)
  let ?p = "length (launched s)"
  let ?ps = "insert ?p (processes s)"
  have s': "s' = s\<lparr>pending := rest, launched := launched s @ [f], processes := ?ps,
                   running := insert ?p (running s),
                   pc := (if card ?ps \<ge> C then Waiting else Loop)\<rparr>"
    using a p Cons by (simp add: popen_def Let_def)
  have fresh: "?p \<notin> processes s" using i by (auto simp: sched_inv_def)
  have fin: "finite (processes s)" using i by (simp add: sched_inv_def)
  have c: "card ?ps = Suc (card (processes s))" using fresh fin by simp
  have lt: "card (processes s) < C" using i p by (auto simp: sched_inv_def)
  show ?thesis
    using i p Cons fresh lt unfolding sched_inv_def s'
    by (auto simp: c less_Suc_eq)
qed

lemma inv_act_waiting:
  assumes i: "sched_inv C jobs s" and p: "pc s = Waiting" and a: "act C h s = Some s'"
    and C: "1 \<le> C"
  shows "sched_inv C jobs s'"
proof -
  have ne: "running s \<union> exited s \<noteq> {}"
  proof
    assume "running s \<union> exited s = {}"
    with i p have "processes s = {}" by (simp add: sched_inv_def)
    with i p C show False by (simp add: sched_inv_def)
  qed
  with a p have h: "h \<in> exited s"
    and s': "s' = s\<lparr>exited := exited s - {h}, pc := Polling (processes s) {}\<rparr>"
    by (auto split: if_splits)
  have "h \<in> processes s" "h \<notin> running s" using i h by (auto simp: sched_inv_def)
  then have "processes s \<noteq> running s \<union> (exited s - {h})" by auto
  then show ?thesis
    using i p unfolding sched_inv_def s' by auto
qed

lemma inv_act_polling:
  assumes i: "sched_inv C jobs s" and p: "pc s = Polling todo dead" and a: "act C h s = Some s'"
  shows "sched_inv C jobs s'"
proof (cases "todo = {}")
  case True
  with a p have s': "s' = s\<lparr>processes := processes s - dead, pc := Loop\<rparr>" by simp
  from i p True have sub: "processes s - (running s \<union> exited s) \<subseteq> dead"
    and ne: "processes s \<noteq> running s \<union> exited s"
    and re: "running s \<union> exited s \<subseteq> processes s"
    and dj: "dead \<inter> (running s \<union> exited s) = {}"
    and fin: "finite (processes s)" and le: "card (processes s) \<le> C"
    by (auto simp: sched_inv_def)
  have eq: "processes s - dead = running s \<union> exited s" using sub re dj by auto
  have "running s \<union> exited s \<subset> processes s" using re ne by auto
  then have "card (running s \<union> exited s) < card (processes s)"
    using fin by (rule psubset_card_mono [rotated])
  with le have lt: "card (processes s - dead) < C" by (simp add: eq)
  have fin2: "finite (running s)" "finite (exited s)"
    using re fin by (auto intro: finite_subset)
  show ?thesis
    using i p lt eq fin2 unfolding sched_inv_def s' by auto
next
  case False
  with a p have h: "h \<in> todo" by (auto split: if_splits)
  show ?thesis
  proof (cases "h \<in> running s")
    case True
    with a p False h have s': "s' = s\<lparr>pc := Polling (todo - {h}) dead\<rparr>" by simp
    show ?thesis using i p True unfolding sched_inv_def s' by auto
  next
    case nr: False
    with a p False h
    have s': "s' = s\<lparr>exited := exited s - {h}, pc := Polling (todo - {h}) (insert h dead)\<rparr>"
      by simp
    show ?thesis using i p nr h unfolding sched_inv_def s' by auto
  qed
qed

lemma inv_act_joining:
  assumes i: "sched_inv C jobs s" and p: "pc s = Joining todo" and a: "act C h s = Some s'"
  shows "sched_inv C jobs s'"
  using assms by (auto simp: sched_inv_def split: if_splits)

lemma inv_act_joinwait:
  assumes i: "sched_inv C jobs s" and p: "pc s = JoinWait q todo" and a: "act C h s = Some s'"
  shows "sched_inv C jobs s'"
  using assms by (auto simp: sched_inv_def split: if_splits)

lemma inv_act:
  assumes "sched_inv C jobs s" "1 \<le> C" "act C h s = Some s'"
  shows "sched_inv C jobs s'"
proof (cases "pc s")
  case Loop
  with assms show ?thesis by (blast intro: inv_act_loop)
next
  case Waiting
  with assms show ?thesis by (blast intro: inv_act_waiting)
next
  case (Polling todo dead)
  with assms show ?thesis by (blast intro: inv_act_polling)
next
  case (Joining todo)
  with assms show ?thesis by (blast intro: inv_act_joining)
next
  case (JoinWait q todo)
  with assms show ?thesis by (blast intro: inv_act_joinwait)
next
  case Returned
  with assms(3) show ?thesis by simp
next
  case (Raised e)
  with assms(3) show ?thesis by simp
qed

lemma inv_step:
  assumes "sched_inv C jobs s" "1 \<le> C" "step C ev s = Some s'"
  shows "sched_inv C jobs s'"
proof (cases ev)
  case (Exit h)
  with assms show ?thesis by (blast intro: inv_exit)
next
  case Fail
  with assms show ?thesis by (blast intro: inv_fail)
next
  case (Act h)
  with assms show ?thesis by (auto intro: inv_act)
qed

lemma inv_run:
  "sched_inv C jobs s \<Longrightarrow> 1 \<le> C \<Longrightarrow> run C evs s = Some s' \<Longrightarrow> sched_inv C jobs s'"
proof (induction evs arbitrary: s)
  case Nil
  then show ?case by simp
next
  case (Cons ev evs)
  from Cons.prems(3) obtain s1 where s1: "step C ev s = Some s1" and r: "run C evs s1 = Some s'"
    by (auto split: option.splits)
  from Cons.prems(1,2) s1 have "sched_inv C jobs s1" by (rule inv_step)
  from Cons.IH [OF this Cons.prems(2) r] show ?case .
qed


text \<open>Every step lowers the count of the steps left, so no run goes on for ever.\<close>

lemma step_decreases:
  assumes i: "sched_inv C jobs s" and st: "step C ev s = Some s'"
  shows "work_left C s' < work_left C s"
proof -
  have fin: "finite (processes s)" and le: "card (processes s) \<le> C"
    and rp: "running s \<subseteq> processes s" and fr: "processes s \<subseteq> {..<length (launched s)}"
    using i by (auto simp: sched_inv_def)
  have finr: "finite (running s)" using rp fin by (rule finite_subset)
  show ?thesis
  proof (cases ev)
    case (Exit h)
    with st have h: "h \<in> running s"
      and s': "s' = s\<lparr>running := running s - {h}, exited := insert h (exited s)\<rparr>"
      by (auto split: if_splits)
    have "card (running s - {h}) < card (running s)"
      using finr h by (rule card_Diff1_less)
    then show ?thesis unfolding s' work_left_def by simp
  next
    case Fail
    with st have "pc s = Loop" and s': "s' = s\<lparr>pc := Raised OSError\<rparr>"
      by (auto split: if_splits)
    then show ?thesis unfolding s' work_left_def by simp
  next
    case (Act h)
    with st have a: "act C h s = Some s'" by simp
    show ?thesis
    proof (cases "pc s")
      case Loop
      show ?thesis
      proof (cases "pending s")
        case Nil
        with a Loop have s': "s' = s\<lparr>pc := Joining (processes s)\<rparr>" by simp
        show ?thesis using Loop le unfolding s' work_left_def by simp
      next
        case (Cons f rest)
        let ?p = "length (launched s)"
        have s': "s' = s\<lparr>pending := rest, launched := launched s @ [f],
                          processes := insert ?p (processes s),
                          running := insert ?p (running s),
                          pc := (if card (insert ?p (processes s)) \<ge> C then Waiting else Loop)\<rparr>"
          using a Loop Cons by (simp add: popen_def Let_def)
        have "?p \<notin> running s" using rp fr by auto
        then have c: "card (insert ?p (running s)) = Suc (card (running s))"
          using finr by simp
        show ?thesis using Loop Cons c unfolding s' work_left_def by simp
      qed
    next
      case Waiting
      with a have s': "s' = s\<lparr>pc := Raised ChildProcessError\<rparr>
                     \<or> s' = s\<lparr>exited := exited s - {h}, pc := Polling (processes s) {}\<rparr>"
        by (auto split: if_splits)
      then show ?thesis using Waiting le unfolding work_left_def by auto
    next
      case (Polling todo dead)
      have ft: "finite todo" using i Polling fin by (auto simp: sched_inv_def intro: finite_subset)
      show ?thesis
      proof (cases "todo = {}")
        case True
        with a Polling have s': "s' = s\<lparr>processes := processes s - dead, pc := Loop\<rparr>" by simp
        show ?thesis using Polling unfolding s' work_left_def by simp
      next
        case False
        with a Polling have h: "h \<in> todo" by (auto split: if_splits)
        have c: "card (todo - {h}) < card todo" using ft h by (rule card_Diff1_less)
        have "s' = s\<lparr>pc := Polling (todo - {h}) dead\<rparr>
            \<or> s' = s\<lparr>exited := exited s - {h}, pc := Polling (todo - {h}) (insert h dead)\<rparr>"
          using a Polling False h by (auto split: if_splits)
        then show ?thesis using Polling c unfolding work_left_def by auto
      qed
    next
      case (Joining todo)
      have ft: "finite todo" using i Joining fin by (auto simp: sched_inv_def intro: finite_subset)
      show ?thesis
      proof (cases "todo = {}")
        case True
        with a Joining have s': "s' = s\<lparr>pc := Returned\<rparr>" by simp
        show ?thesis using Joining unfolding s' work_left_def by simp
      next
        case False
        with a Joining have h: "h \<in> todo" by (auto split: if_splits)
        have c: "card (todo - {h}) < card todo" using ft h by (rule card_Diff1_less)
        have "s' = s\<lparr>pc := JoinWait h (todo - {h})\<rparr>
            \<or> s' = s\<lparr>exited := exited s - {h}, pc := Joining (todo - {h})\<rparr>"
          using a Joining False h by (auto split: if_splits)
        then show ?thesis using Joining c unfolding work_left_def by auto
      qed
    next
      case (JoinWait q todo)
      with a have s': "s' = s\<lparr>exited := exited s - {q}, pc := Joining todo\<rparr>"
        by (auto split: if_splits)
      show ?thesis using JoinWait unfolding s' work_left_def by simp
    next
      case Returned
      with a show ?thesis by simp
    next
      case (Raised e)
      with a show ?thesis by simp
    qed
  qed
qed

lemma run_length:
  "sched_inv C jobs s \<Longrightarrow> 1 \<le> C \<Longrightarrow> run C evs s = Some s' \<Longrightarrow>
     length evs + work_left C s' \<le> work_left C s"
proof (induction evs arbitrary: s)
  case Nil
  then show ?case by simp
next
  case (Cons ev evs)
  from Cons.prems(3) obtain s1 where s1: "step C ev s = Some s1" and r: "run C evs s1 = Some s'"
    by (auto split: option.splits)
  have i1: "sched_inv C jobs s1" using Cons.prems(1,2) s1 by (rule inv_step)
  have "work_left C s1 < work_left C s" using Cons.prems(1) s1 by (rule step_decreases)
  moreover have "length evs + work_left C s' \<le> work_left C s1"
    using i1 Cons.prems(2) r by (rule Cons.IH)
  ultimately show ?case by simp
qed

lemma run_append:
  "run C (evs @ evs') s = (case run C evs s of None \<Rightarrow> None | Some s1 \<Rightarrow> run C evs' s1)"
  by (induction evs arbitrary: s) (auto split: option.splits)

lemma exits_append: "exits (evs @ evs') = exits evs @ exits evs'"
  by (induction evs rule: exits.induct) auto

lemma exits_set: "h \<in> set (exits evs) \<longleftrightarrow> Exit h \<in> set evs"
  by (induction evs rule: exits.induct) auto

text \<open>
  The children: a step of the script starts at most one, with the next handle,
  and only the environment takes a child out of \<open>running\<close>.
\<close>

lemma act_same_children:
  assumes "act C h s = Some s'"
  shows "(running s' = running s \<and> launched s' = launched s)
       \<or> (running s' = insert (length (launched s)) (running s)
          \<and> length (launched s') = Suc (length (launched s)))"
  using assms
  by (cases "pc s") (auto simp: popen_def Let_def split: if_splits list.splits)

lemma run_children:
  "run C evs (init jobs) = Some s \<Longrightarrow>
     running s = {h. h < length (launched s) \<and> h \<notin> set (exits evs)}
     \<and> set (exits evs) \<subseteq> {..<length (launched s)}
     \<and> distinct (exits evs)"
proof (induction evs arbitrary: s rule: rev_induct)
  case Nil
  then show ?case by (auto simp: init_def)
next
  case (snoc ev evs)
  from snoc.prems obtain s1 where r: "run C evs (init jobs) = Some s1"
    and st: "step C ev s1 = Some s"
    by (auto simp: run_append split: option.splits)
  from snoc.IH [OF r]
  have ru: "running s1 = {h. h < length (launched s1) \<and> h \<notin> set (exits evs)}"
    and ex: "set (exits evs) \<subseteq> {..<length (launched s1)}"
    and di: "distinct (exits evs)" by auto
  show ?case
  proof (cases ev)
    case (Exit h)
    with st have h: "h \<in> running s1"
      and s: "s = s1\<lparr>running := running s1 - {h}, exited := insert h (exited s1)\<rparr>"
      by (auto split: if_splits)
    from h ru have "h < length (launched s1)" "h \<notin> set (exits evs)" by auto
    then show ?thesis using ru ex di unfolding s Exit by (auto simp: exits_append)
  next
    case Fail
    with st have s: "s = s1\<lparr>pc := Raised OSError\<rparr>" by (auto split: if_splits)
    show ?thesis using ru ex di unfolding s Fail by (simp add: exits_append)
  next
    case (Act h)
    with st have "act C h s1 = Some s" by simp
    from act_same_children [OF this] show ?thesis
    proof
      assume "running s = running s1 \<and> launched s = launched s1"
      then show ?thesis using ru ex di unfolding Act by (simp add: exits_append)
    next
      assume a: "running s = insert (length (launched s1)) (running s1)
                 \<and> length (launched s) = Suc (length (launched s1))"
      have "length (launched s1) \<notin> set (exits evs)" using ex by auto
      then show ?thesis using a ru ex di unfolding Act
        by (auto simp: exits_append less_Suc_eq)
    qed
  qed
qed

text \<open>
  \<^verbatim>\<open>os.wait()\<close> is never called without a child to wait for: the only exception
  that ends the loop is the one \<^verbatim>\<open>Popen\<close> raises.
\<close>

lemma raised_by_fail:
  assumes C: "1 \<le> C"
  shows "run C evs (init jobs) = Some s \<Longrightarrow> pc s = Raised e \<Longrightarrow> e = OSError \<and> Fail \<in> set evs"
proof (induction evs arbitrary: s rule: rev_induct)
  case Nil
  then show ?case by (auto simp: init_def)
next
  case (snoc ev evs)
  from snoc.prems(1) obtain s1 where r: "run C evs (init jobs) = Some s1"
    and st: "step C ev s1 = Some s"
    by (auto simp: run_append split: option.splits)
  have i1: "sched_inv C jobs s1" using inv_init [OF C] C r by (rule inv_run)
  have i: "sched_inv C jobs s" using i1 C st by (rule inv_step)
  from i snoc.prems(2) have e: "e = OSError" by (simp add: sched_inv_def)
  show ?case
  proof (cases ev)
    case (Exit h)
    with st snoc.prems(2) have "pc s1 = Raised e" by (auto split: if_splits)
    from snoc.IH [OF r this] show ?thesis by simp
  next
    case Fail
    with e show ?thesis by simp
  next
    case (Act h)
    with st have a: "act C h s1 = Some s" by simp
    have "pc s1 = Waiting \<and> running s1 \<union> exited s1 = {}"
      using a snoc.prems(2) by (cases "pc s1") (auto simp: Let_def split: if_splits list.splits)
    with i1 C have False by (auto simp: sched_inv_def)
    then show ?thesis ..
  qed
qed

text \<open>
  Before its return the script is never stuck for good: either it has a step,
  or it waits for a child that is running and can end.
\<close>

lemma can_step:
  assumes i: "sched_inv C jobs s" and C: "1 \<le> C"
    and nf: "pc s \<noteq> Returned" "\<forall>e. pc s \<noteq> Raised e"
  shows "\<exists>ev s'. ev \<noteq> Fail \<and> step C ev s = Some s' \<and> (\<forall>e. pc s' \<noteq> Raised e)"
proof (cases "pc s")
  case Loop
  then have "\<exists>s'. step C (Act 0) s = Some s' \<and> (\<forall>e. pc s' \<noteq> Raised e)"
    by (cases "pending s") (auto simp: Let_def)
  then show ?thesis by blast
next
  case Waiting
  have ne: "running s \<union> exited s \<noteq> {}"
  proof
    assume "running s \<union> exited s = {}"
    with i Waiting have "processes s = {}" by (simp add: sched_inv_def)
    with i Waiting C show False by (simp add: sched_inv_def)
  qed
  show ?thesis
  proof (cases "exited s = {}")
    case True
    with ne obtain h where "h \<in> running s" by auto
    with Waiting have "\<exists>s'. step C (Exit h) s = Some s' \<and> (\<forall>e. pc s' \<noteq> Raised e)" by simp
    then show ?thesis by blast
  next
    case False
    then obtain h where "h \<in> exited s" by auto
    with Waiting ne have "\<exists>s'. step C (Act h) s = Some s' \<and> (\<forall>e. pc s' \<noteq> Raised e)" by auto
    then show ?thesis by blast
  qed
next
  case (Polling todo dead)
  show ?thesis
  proof (cases "todo = {}")
    case True
    with Polling have "\<exists>s'. step C (Act 0) s = Some s' \<and> (\<forall>e. pc s' \<noteq> Raised e)" by simp
    then show ?thesis by blast
  next
    case False
    then obtain h where "h \<in> todo" by auto
    with Polling False have "\<exists>s'. step C (Act h) s = Some s' \<and> (\<forall>e. pc s' \<noteq> Raised e)"
      by (cases "h \<in> running s") auto
    then show ?thesis by blast
  qed
next
  case (Joining todo)
  show ?thesis
  proof (cases "todo = {}")
    case True
    with Joining have "\<exists>s'. step C (Act 0) s = Some s' \<and> (\<forall>e. pc s' \<noteq> Raised e)" by simp
    then show ?thesis by blast
  next
    case False
    then obtain h where "h \<in> todo" by auto
    with Joining False have "\<exists>s'. step C (Act h) s = Some s' \<and> (\<forall>e. pc s' \<noteq> Raised e)"
      by (cases "h \<in> running s") auto
    then show ?thesis by blast
  qed
next
  case (JoinWait q todo)
  show ?thesis
  proof (cases "q \<in> running s")
    case True
    with JoinWait have "\<exists>s'. step C (Exit q) s = Some s' \<and> (\<forall>e. pc s' \<noteq> Raised e)" by simp
    then show ?thesis by blast
  next
    case False
    with JoinWait have "\<exists>s'. step C (Act 0) s = Some s' \<and> (\<forall>e. pc s' \<noteq> Raised e)" by simp
    then show ?thesis by blast
  qed
next
  case Returned
  with nf show ?thesis by simp
next
  case (Raised e)
  with nf show ?thesis by simp
qed

lemma can_return:
  assumes C: "1 \<le> C"
  shows "sched_inv C jobs s \<Longrightarrow> \<forall>e. pc s \<noteq> Raised e \<Longrightarrow>
           \<exists>evs s'. Fail \<notin> set evs \<and> run C evs s = Some s' \<and> pc s' = Returned"
proof (induction "work_left C s" arbitrary: s rule: less_induct)
  case less
  show ?case
  proof (cases "pc s = Returned")
    case True
    then have "Fail \<notin> set [] \<and> run C [] s = Some s \<and> pc s = Returned" by simp
    then show ?thesis by blast
  next
    case False
    from can_step [OF less.prems(1) C False less.prems(2)]
    obtain ev s1 where nfail: "ev \<noteq> Fail" and st: "step C ev s = Some s1"
      and nr: "\<forall>e. pc s1 \<noteq> Raised e" by blast
    have i1: "sched_inv C jobs s1" using less.prems(1) C st by (rule inv_step)
    have "work_left C s1 < work_left C s" using less.prems(1) st by (rule step_decreases)
    from less.hyps [OF this i1 nr]
    obtain evs s' where "Fail \<notin> set evs" "run C evs s1 = Some s'" "pc s' = Returned" by blast
    with st nfail have "Fail \<notin> set (ev # evs) \<and> run C (ev # evs) s = Some s' \<and> pc s' = Returned"
      by simp
    then show ?thesis by blast
  qed
qed

text \<open>
  C1. For a batch of \<open>N\<close> files and a ceiling \<open>C\<close> with \<open>1 \<le> C \<le> N\<close>, take any
  run of the scheduling loop, that is any behaviour of the children, and the
  state \<open>s\<close> it has reached.
  \<^item> At most \<open>C\<close> children are running.
  \<^item> The files launched so far are the first files of the batch, one \<^verbatim>\<open>Popen\<close>
    call each, and the children running are exactly the children of these
    calls that have not ended; no child ends twice.
  \<^item> When the loop has returned, every one of the \<open>N\<close> files has been launched
    and every one of the \<open>N\<close> children has ended, before the return.
  \<^item> The run is no longer than \<open>(C + 4) * N + 2 * C + 2\<close> events; when nothing
    more can happen the loop has returned, or \<^verbatim>\<open>Popen\<close> had failed; and as long
    as \<^verbatim>\<open>Popen\<close> has not failed the run can be continued to the return.
\<close>

theorem scheduler_bounded:
  assumes "1 \<le> C" and "C \<le> length pdbqt_files"
    and "run C evs (init pdbqt_files) = Some s"
  shows "card (running s) \<le> C
       \<and> launched s @ pending s = pdbqt_files
       \<and> running s = {h. h < length (launched s) \<and> Exit h \<notin> set evs}
       \<and> distinct (exits evs)
       \<and> length evs \<le> (C + 4) * length pdbqt_files + 2 * C + 2
       \<and> (pc s = Returned \<longrightarrow>
            launched s = pdbqt_files \<and> (\<forall>h < length pdbqt_files. Exit h \<in> set evs))
       \<and> ((\<forall>ev. step C ev s = None) \<longrightarrow>
            pc s = Returned \<or> (pc s = Raised OSError \<and> Fail \<in> set evs))
       \<and> (Fail \<notin> set evs \<longrightarrow>
            (\<exists>evs' s'. run C (evs @ evs') (init pdbqt_files) = Some s' \<and> pc s' = Returned))"
proof -
  have i0: "sched_inv C pdbqt_files (init pdbqt_files)" using assms(1) by (rule inv_init)
  have i: "sched_inv C pdbqt_files s" using i0 assms(1) assms(3) by (rule inv_run)
  have ch: "running s = {h. h < length (launched s) \<and> h \<notin> set (exits evs)}"
    and di: "distinct (exits evs)"
    using run_children [OF assms(3)] by auto
  have c1: "card (running s) \<le> C"
  proof -
    from i have "running s \<subseteq> processes s" "finite (processes s)" "card (processes s) \<le> C"
      by (auto simp: sched_inv_def)
    then show ?thesis using card_mono [of "processes s" "running s"] by linarith
  qed
  have c2: "launched s @ pending s = pdbqt_files" using i by (simp add: sched_inv_def)
  have c3: "running s = {h. h < length (launched s) \<and> Exit h \<notin> set evs}"
    using ch by (simp add: exits_set)
  have c5: "length evs \<le> (C + 4) * length pdbqt_files + 2 * C + 2"
  proof -
    have "length evs + work_left C s \<le> work_left C (init pdbqt_files)"
      using i0 assms(1) assms(3) by (rule run_length)
    moreover have "work_left C (init pdbqt_files) = (C + 4) * length pdbqt_files + 2 * C + 2"
      by (simp add: work_left_def init_def)
    ultimately show ?thesis by simp
  qed
  have c6: "pc s = Returned \<longrightarrow>
            launched s = pdbqt_files \<and> (\<forall>h < length pdbqt_files. Exit h \<in> set evs)"
  proof
    assume r: "pc s = Returned"
    with i have p: "pending s = []" and e: "running s = {}" by (auto simp: sched_inv_def)
    from p c2 have l: "launched s = pdbqt_files" by simp
    from e c3 l have "\<forall>h < length pdbqt_files. Exit h \<in> set evs" by auto
    with l show "launched s = pdbqt_files \<and> (\<forall>h < length pdbqt_files. Exit h \<in> set evs)" by simp
  qed
  have c7: "(\<forall>ev. step C ev s = None) \<longrightarrow>
            pc s = Returned \<or> (pc s = Raised OSError \<and> Fail \<in> set evs)"
  proof
    assume stuck: "\<forall>ev. step C ev s = None"
    show "pc s = Returned \<or> (pc s = Raised OSError \<and> Fail \<in> set evs)"
    proof (cases "pc s = Returned")
      case True
      then show ?thesis by simp
    next
      case False
      have "\<exists>e. pc s = Raised e"
      proof (rule ccontr)
        assume "\<not> (\<exists>e. pc s = Raised e)"
        then have "\<forall>e. pc s \<noteq> Raised e" by simp
        from can_step [OF i assms(1) False this] stuck show False by auto
      qed
      then obtain e where "pc s = Raised e" by blast
      with raised_by_fail [OF assms(1) assms(3)] show ?thesis by auto
    qed
  qed
  have c8: "Fail \<notin> set evs \<longrightarrow>
            (\<exists>evs' s'. run C (evs @ evs') (init pdbqt_files) = Some s' \<and> pc s' = Returned)"
  proof
    assume "Fail \<notin> set evs"
    with raised_by_fail [OF assms(1) assms(3)] have "\<forall>e. pc s \<noteq> Raised e" by auto
    from can_return [OF assms(1) i this]
    obtain evs' s' where "run C evs' s = Some s'" "pc s' = Returned" by blast
    with assms(3) have "run C (evs @ evs') (init pdbqt_files) = Some s' \<and> pc s' = Returned"
      by (simp add: run_append)
    then show "\<exists>evs' s'. run C (evs @ evs') (init pdbqt_files) = Some s' \<and> pc s' = Returned"
      by blast
  qed
  from c1 c2 c3 di c5 c6 c7 c8 show ?thesis by blast
qed

lemma demo_run:
  "run 2 demo (init three_jobs) =
     Some \<lparr>pending = [], launched = [''m1.pdbqt'', ''m2.pdbqt'', ''m3.pdbqt''],
           processes = {2}, running = {}, exited = {}, pc = Returned\<rparr>"
  by code_simp

theorem scheduler_bounded_witness:
  "(1::nat) \<le> 2 \<and> 2 \<le> length three_jobs
   \<and> (\<exists>s. run 2 demo (init three_jobs) = Some s
        \<and> pc s = Returned \<and> (\<forall>ev. step 2 ev s = None) \<and> Fail \<notin> set demo
        \<and> card (running s) \<le> 2 \<and> running s = {} \<and> launched s = three_jobs
        \<and> (\<forall>h < length three_jobs. Exit h \<in> set demo)
        \<and> distinct (exits demo)
        \<and> length demo \<le> (2 + 4) * length three_jobs + 2 * 2 + 2)
   \<and> (\<exists>evs' s'. run 2 (demo @ evs') (init three_jobs) = Some s' \<and> pc s' = Returned)"
proof -
  let ?s = "\<lparr>pending = [], launched = [''m1.pdbqt'', ''m2.pdbqt'', ''m3.pdbqt''],
             processes = {2}, running = {}, exited = {}, pc = Returned\<rparr>"
  have a: "(1::nat) \<le> 2" by simp
  have b: "2 \<le> length three_jobs" by (simp add: three_jobs_def)
  have st: "\<forall>ev. step 2 ev ?s = None"
  proof
    fix ev show "step 2 ev ?s = None" by (cases ev) simp_all
  qed
  have nf: "Fail \<notin> set demo" by (simp add: demo_def)
  have r: "pc ?s = Returned" by simp
  from scheduler_bounded [OF a b demo_run] r nf
  have "card (running ?s) \<le> 2" and "launched ?s = three_jobs"
    and "\<forall>h < length three_jobs. Exit h \<in> set demo" and "distinct (exits demo)"
    and "length demo \<le> (2 + 4) * length three_jobs + 2 * 2 + 2"
    and "\<exists>evs' s'. run 2 (demo @ evs') (init three_jobs) = Some s' \<and> pc s' = Returned"
    by blast+
  with a b demo_run r st nf show ?thesis by simp
qed

end
